theory Spec2Isabelle
  imports Main "HOL-Library.Code_Target_Nat"
begin

section \<open>Regular expressions as used by the validators\<close>

text \<open>
  The two validators of \<^verbatim>\<open>app.py\<close> call \<^verbatim>\<open>re.match(pattern, s)\<close> and return
  \<^verbatim>\<open>bool(match)\<close>. The patterns are embedded as terms of the datatype \<open>regex\<close>, one
  constructor per construct the patterns use, and \<open>re_match\<close> decides whether a match
  that starts at the beginning of the subject exists.

  A Python \<^verbatim>\<open>str\<close> is a sequence of code points, here a list of natural numbers, so
  \<open>length\<close> counts what Python's \<^verbatim>\<open>len\<close> counts. \<open>str\<close> spells such a string by its
  ASCII characters.
\<close>

type_synonym codepoint = nat

type_synonym unistr = "codepoint list"

definition str :: "string \<Rightarrow> unistr" where
  "str cs = map of_char cs"

type_synonym cursor = "unistr \<times> unistr"
  \<comment> \<open>the text before the current position and the text after it\<close>

datatype regex =
    Eps
  | Cls "codepoint \<Rightarrow> bool"
  | Seq regex regex
  | Alt regex regex
  | Rep nat "nat option" regex
  | Bol
  | Eol
  | Ahead regex
  | NotAhead regex

text \<open>
  \<open>times k f x\<close>: the positions after exactly \<open>k\<close> rounds of \<open>f\<close>;
  \<open>upto_times k f x\<close>: the positions after at most \<open>k\<close> rounds, the longer ones first
  as the greedy quantifiers try them.
\<close>

primrec times :: "nat \<Rightarrow> (cursor \<Rightarrow> cursor list) \<Rightarrow> cursor \<Rightarrow> cursor list" where
  "times 0 f x = [x]"
| "times (Suc k) f x = concat (map (times k f) (f x))"

primrec upto_times :: "nat \<Rightarrow> (cursor \<Rightarrow> cursor list) \<Rightarrow> cursor \<Rightarrow> cursor list" where
  "upto_times 0 f x = [x]"
| "upto_times (Suc k) f x = concat (map (upto_times k f) (f x)) @ [x]"

text \<open>
  \<open>ends r x\<close> lists every position at which a match of \<open>r\<close> that starts at \<open>x\<close> can end.
  \<^item> \<open>Cls P\<close> is one character of a class (\<^verbatim>\<open>\d\<close>, \<^verbatim>\<open>[A-Za-z]\<close>, a literal, \<^verbatim>\<open>.\<close>).
  \<^item> \<open>Rep m (Some n) r\<close> is \<^verbatim>\<open>r{m,n}\<close> and \<open>Rep m None r\<close> is \<^verbatim>\<open>r{m,}\<close>. After the
    \<open>m\<close> compulsory rounds an unbounded repetition runs at most once per remaining
    character: a round that consumes nothing reaches no new position.
  \<^item> \<open>Bol\<close> is \<^verbatim>\<open>^\<close> and \<open>Eol\<close> is \<^verbatim>\<open>$\<close>, which without the MULTILINE flag matches at the
    end of the subject and also just before a line feed (code point 10) that is its
    last character.
  \<^item> \<open>Ahead r\<close> is \<^verbatim>\<open>(?=r)\<close> and \<open>NotAhead r\<close> is \<^verbatim>\<open>(?!r)\<close>; neither consumes text.
  Capturing groups only record text and play no part in whether a match exists.
\<close>

primrec ends :: "regex \<Rightarrow> cursor \<Rightarrow> cursor list" where
  "ends Eps = (\<lambda>x. [x])"
| "ends (Cls P) =
     (\<lambda>x. case snd x of [] \<Rightarrow> [] | c # t \<Rightarrow> if P c then [(fst x @ [c], t)] else [])"
| "ends (Seq a b) = (\<lambda>x. concat (map (ends b) (ends a x)))"
| "ends (Alt a b) = (\<lambda>x. ends a x @ ends b x)"
| "ends (Rep m n r) =
     (\<lambda>x. concat (map (upto_times (case n of None \<Rightarrow> length (snd x) | Some k \<Rightarrow> k - m) (ends r))
                       (times m (ends r) x)))"
| "ends Bol = (\<lambda>x. if fst x = [] then [x] else [])"
| "ends Eol = (\<lambda>x. if snd x = [] \<or> snd x = [0x0A] then [x] else [])"
| "ends (Ahead r) = (\<lambda>x. if ends r x = [] then [] else [x])"
| "ends (NotAhead r) = (\<lambda>x. if ends r x = [] then [x] else [])"

definition re_match :: "regex \<Rightarrow> unistr \<Rightarrow> bool" where
  \<comment> \<open>\<^verbatim>\<open>bool(re.match(r, s))\<close>: the match is tried at the start of the subject only\<close>
  "re_match r s = (ends r ([], s) \<noteq> [])"

definition seqs :: "regex list \<Rightarrow> regex" where
  "seqs rs = foldr Seq rs Eps"

definition alts :: "regex \<Rightarrow> regex list \<Rightarrow> regex" where
  "alts r rs = foldr Alt (butlast (r # rs)) (last (r # rs))"

definition lit :: "char \<Rightarrow> regex" where
  "lit a = Cls (\<lambda>c. c = of_char a)"

definition opt :: "regex \<Rightarrow> regex" where
  "opt r = Rep 0 (Some 1) r"

definition plus :: "regex \<Rightarrow> regex" where
  "plus r = Rep 1 None r"

definition star :: "regex \<Rightarrow> regex" where
  "star r = Rep 0 None r"

subsection \<open>Character classes\<close>

text \<open>
  The patterns are \<^verbatim>\<open>str\<close> patterns compiled without the ASCII flag, so \<^verbatim>\<open>\d\<close> matches
  every Unicode decimal digit and \<^verbatim>\<open>\s\<close> every Unicode whitespace character. Below code
  point 128 the interpreter decides both by a fixed table; from 128 on it asks its
  Unicode database, which is not part of the source and is the parameter \<open>U\<close> of the
  model. Every theorem below holds for every database.
\<close>

record unicode =
  uni_decimal :: "codepoint \<Rightarrow> bool"
  uni_whitespace :: "codepoint \<Rightarrow> bool"

definition digit :: "unicode \<Rightarrow> codepoint \<Rightarrow> bool" where
  \<comment> \<open>\<^verbatim>\<open>\d\<close>: \<^verbatim>\<open>0\<close> to \<^verbatim>\<open>9\<close> and the decimal digits of the other scripts\<close>
  "digit U c = (if c < 128 then of_char CHR ''0'' \<le> c \<and> c \<le> of_char CHR ''9''
                else uni_decimal U c)"

definition space :: "unicode \<Rightarrow> codepoint \<Rightarrow> bool" where
  \<comment> \<open>\<^verbatim>\<open>\s\<close>: tab to carriage return, the four separators 28 to 31, the blank, and the
      whitespace beyond ASCII\<close>
  "space U c = (if c < 128 then c \<in> set [0x09, 0x0A, 0x0B, 0x0C, 0x0D, 0x1C, 0x1D, 0x1E, 0x1F, 0x20]
                else uni_whitespace U c)"

definition upper :: "codepoint \<Rightarrow> bool" where
  \<comment> \<open>\<^verbatim>\<open>[A-Z]\<close>\<close>
  "upper c = (of_char CHR ''A'' \<le> c \<and> c \<le> of_char CHR ''Z'')"

definition alpha :: "codepoint \<Rightarrow> bool" where
  \<comment> \<open>\<^verbatim>\<open>[A-Za-z]\<close>\<close>
  "alpha c = (upper c \<or> of_char CHR ''a'' \<le> c \<and> c \<le> of_char CHR ''z'')"

definition dot :: "codepoint \<Rightarrow> bool" where
  \<comment> \<open>\<^verbatim>\<open>.\<close> without the DOTALL flag: anything but a line feed\<close>
  "dot c = (c \<noteq> 0x0A)"

definition dot_or_hyphen :: "codepoint \<Rightarrow> bool" where
  \<comment> \<open>\<^verbatim>\<open>[.-]\<close>\<close>
  "dot_or_hyphen c = (c \<in> set (str ''.-''))"

definition separator :: "unicode \<Rightarrow> codepoint \<Rightarrow> bool" where
  \<comment> \<open>\<^verbatim>\<open>[\s.-]\<close>\<close>
  "separator U c = (space U c \<or> c \<in> set (str ''.-''))"

definition space_or_alpha :: "unicode \<Rightarrow> codepoint \<Rightarrow> bool" where
  \<comment> \<open>\<^verbatim>\<open>[\sA-Za-z]\<close>\<close>
  "space_or_alpha U c = (space U c \<or> alpha c)"

section \<open>The validators\<close>

text \<open>
  \<^verbatim>\<open>^(?!(\d{6,}))\+?\d{0,3}\s?(\d\s|(\(\d{2}\)\s)|(\(\d{3}\)))?[.-]?\d{2,5}[\s.-]?\d{2,5}[\s.-]?\d{1,9}$\<close>
\<close>

definition phone_prefix_guard :: "unicode \<Rightarrow> regex" where
  \<comment> \<open>\<^verbatim>\<open>\d{6,}\<close>, the body of the negative lookahead\<close>
  "phone_prefix_guard U = Rep 6 None (Cls (digit U))"

definition phone_area :: "unicode \<Rightarrow> regex" where
  \<comment> \<open>\<^verbatim>\<open>\d\s|(\(\d{2}\)\s)|(\(\d{3}\))\<close>\<close>
  "phone_area U =
     alts (seqs [Cls (digit U), Cls (space U)])
          [seqs [lit CHR ''('', Rep 2 (Some 2) (Cls (digit U)), lit CHR '')'', Cls (space U)],
           seqs [lit CHR ''('', Rep 3 (Some 3) (Cls (digit U)), lit CHR '')'']]"

definition phone_body :: "unicode \<Rightarrow> regex" where
  \<comment> \<open>everything between the lookahead and the final \<^verbatim>\<open>$\<close>\<close>
  "phone_body U =
     seqs [opt (lit CHR ''+''), Rep 0 (Some 3) (Cls (digit U)), opt (Cls (space U)),
           opt (phone_area U),
           opt (Cls dot_or_hyphen), Rep 2 (Some 5) (Cls (digit U)),
           opt (Cls (separator U)), Rep 2 (Some 5) (Cls (digit U)),
           opt (Cls (separator U)), Rep 1 (Some 9) (Cls (digit U))]"

definition phone_pattern :: "unicode \<Rightarrow> regex" where
  "phone_pattern U = seqs [Bol, NotAhead (phone_prefix_guard U), phone_body U, Eol]"

definition validate_phone_number :: "unicode \<Rightarrow> unistr \<Rightarrow> bool" where
  "validate_phone_number U phone_number = re_match (phone_pattern U) phone_number"

text \<open>
  The name pattern is \<^verbatim>\<open>^(?=.{1,35}$)(\<close>\<open>A\<^sub>1\<close>\<^verbatim>\<open>|\<close>\<open>\<dots>\<close>\<^verbatim>\<open>|\<close>\<open>A\<^sub>7\<close>\<^verbatim>\<open>)$\<close> with the seven
  alternatives below, in the order of the source.
\<close>

definition name_alt1 :: "unicode \<Rightarrow> regex" where
  \<comment> \<open>\<^verbatim>\<open>([A-Za-z]+\s?){1,3}\<close>\<close>
  "name_alt1 U = Rep 1 (Some 3) (seqs [plus (Cls alpha), opt (Cls (space U))])"

definition name_alt2 :: "unicode \<Rightarrow> regex" where
  \<comment> \<open>\<^verbatim>\<open>[A-Za-z]+,\s[A-Za-z]+[\sA-Za-z]*\<close>\<close>
  "name_alt2 U = seqs [plus (Cls alpha), lit CHR '','', Cls (space U), plus (Cls alpha),
                       star (Cls (space_or_alpha U))]"

definition name_alt3 :: "unicode \<Rightarrow> regex" where
  \<comment> \<open>\<^verbatim>\<open>([A-Za-z]+\s)[A-Za-z]\'[A-Za-z]+(\-[A-Za-z]+)?\<close>\<close>
  "name_alt3 U = seqs [plus (Cls alpha), Cls (space U), Cls alpha, lit CHR 0x27, plus (Cls alpha),
                       opt (seqs [lit CHR ''-'', plus (Cls alpha)])]"

definition name_alt4 :: "unicode \<Rightarrow> regex" where
  \<comment> \<open>\<^verbatim>\<open>[A-Za-z]\'[A-Za-z]+\,\s[A-Za-z]+\s[A-Z]\.\<close>\<close>
  "name_alt4 U = seqs [Cls alpha, lit CHR 0x27, plus (Cls alpha), lit CHR '','', Cls (space U),
                       plus (Cls alpha), Cls (space U), Cls upper, lit CHR ''.'']"

definition name_alt5 :: "unicode \<Rightarrow> regex" where
  \<comment> \<open>\<^verbatim>\<open>[A-Za-z]+\s[A-Za-z]\.\s[A-Za-z]+\<close>\<close>
  "name_alt5 U = seqs [plus (Cls alpha), Cls (space U), Cls alpha, lit CHR ''.'', Cls (space U),
                       plus (Cls alpha)]"

definition name_alt6 :: "unicode \<Rightarrow> regex" where
  \<comment> \<open>\<^verbatim>\<open>[A-Za-z]+\s[A-Za-z]\.\s[A-Z]\'[A-Za-z]+\<close>\<close>
  "name_alt6 U = seqs [plus (Cls alpha), Cls (space U), Cls alpha, lit CHR ''.'', Cls (space U),
                       Cls upper, lit CHR 0x27, plus (Cls alpha)]"

definition name_alt7 :: "unicode \<Rightarrow> regex" where
  \<comment> \<open>\<^verbatim>\<open>[A-Za-z]+\,\s[A-Za-z]+\s[A-Z]\.\<close>\<close>
  "name_alt7 U = seqs [plus (Cls alpha), lit CHR '','', Cls (space U), plus (Cls alpha),
                       Cls (space U), Cls upper, lit CHR ''.'']"

definition name_length_guard :: regex where
  \<comment> \<open>\<^verbatim>\<open>.{1,35}$\<close>, the body of the lookahead\<close>
  "name_length_guard = seqs [Rep 1 (Some 35) (Cls dot), Eol]"

definition name_shapes :: "unicode \<Rightarrow> regex" where
  "name_shapes U =
     alts (name_alt1 U)
          [name_alt2 U, name_alt3 U, name_alt4 U, name_alt5 U, name_alt6 U, name_alt7 U]"

definition name_pattern :: "unicode \<Rightarrow> regex" where
  "name_pattern U = seqs [Bol, Ahead name_length_guard, name_shapes U, Eol]"

definition validate_full_name :: "unicode \<Rightarrow> unistr \<Rightarrow> bool" where
  "validate_full_name U name = re_match (name_pattern U) name"

section \<open>The two stores\<close>

text \<open>
  The tables \<^verbatim>\<open>phonebook\<close> and \<^verbatim>\<open>audit_log\<close> are lists of rows in insertion order.
  The columns \<^verbatim>\<open>full_name\<close> and \<^verbatim>\<open>phone_number\<close> of an audit row are optional: the row
  written by the list handler sets neither, and the database stores \<^verbatim>\<open>NULL\<close>. The
  request body \<^verbatim>\<open>Person\<close> keeps the plain field names; the columns of the two tables
  carry a prefix. Names and numbers come from the caller and are \<open>unistr\<close>; the action
  tags and the messages are literals of the program.
\<close>

record PhoneBook =
  pb_id :: nat
  pb_full_name :: unistr
  pb_phone_number :: unistr

record AuditLog =
  al_id :: nat
  al_timestamp :: nat
  al_action :: string
  al_full_name :: "unistr option"
  al_phone_number :: "unistr option"

record Person =
  full_name :: unistr
  phone_number :: unistr

record HTTPException =
  status_code :: nat
  detail :: string

record stores =
  phonebook :: "PhoneBook list"
  audit_log :: "AuditLog list"

definition next_id :: "nat list \<Rightarrow> nat" where
  \<comment> \<open>the integer primary key the database assigns: one more than the largest in use\<close>
  "next_id ids = Suc (fold max ids 0)"

definition audit_insert ::
  "nat \<Rightarrow> string \<Rightarrow> unistr option \<Rightarrow> unistr option \<Rightarrow> stores \<Rightarrow> stores" where
  \<comment> \<open>\<^verbatim>\<open>session = auditLog_Session(); session.add(AuditLog(...)); session.commit()\<close>,
      with the server time \<open>now\<close> as the default of the \<^verbatim>\<open>timestamp\<close> column\<close>
  "audit_insert now a n p s =
     s\<lparr>audit_log := audit_log s @
         [\<lparr>al_id = next_id (map al_id (audit_log s)), al_timestamp = now, al_action = a,
           al_full_name = n, al_phone_number = p\<rparr>]\<rparr>"

definition invalid_input :: HTTPException where
  "invalid_input =
     \<lparr>status_code = 400, detail = ''Invalid input. Please check your response and try again.''\<rparr>"

definition number_exists :: HTTPException where
  "number_exists = \<lparr>status_code = 400, detail = ''Phone number already exists in the database''\<rparr>"

definition person_exists :: HTTPException where
  "person_exists = \<lparr>status_code = 400, detail = ''Person already exists in the database''\<rparr>"

definition not_found :: HTTPException where
  "not_found = \<lparr>status_code = 404, detail = ''Person not found in the database''\<rparr>"

section \<open>The handlers\<close>

text \<open>
  A handler takes the Unicode database of the interpreter, the server time of the
  request and the two stores, and returns its response together with the stores it
  leaves behind. A raised \<^verbatim>\<open>HTTPException\<close> is the \<open>Inl\<close> result.
  \<^verbatim>\<open>query(...).filter(...).first()\<close> is \<open>find\<close> on the rows, and
  \<^verbatim>\<open>session.delete(person)\<close> removes the row with the primary key of \<open>person\<close>. The
  deleted object keeps the column values the query loaded, and the delete handlers
  build their audit row from them after the commit.
\<close>

definition list_phonebook :: "nat \<Rightarrow> stores \<Rightarrow> PhoneBook list \<times> stores" where
  "list_phonebook now s = (phonebook s, audit_insert now ''list'' None None s)"

definition add_person ::
  "unicode \<Rightarrow> Person \<Rightarrow> nat \<Rightarrow> stores \<Rightarrow> (HTTPException + string) \<times> stores" where
  "add_person U person now s =
     (if \<not> validate_full_name U (full_name person) then (Inl invalid_input, s)
      else if \<not> validate_phone_number U (phone_number person) then (Inl invalid_input, s)
      else
        let existing_number = find (\<lambda>r. pb_phone_number r = phone_number person) (phonebook s);
            existing_person = find (\<lambda>r. pb_full_name r = full_name person) (phonebook s)
        in if existing_number \<noteq> None then (Inl number_exists, s)
           else if existing_person \<noteq> None then (Inl person_exists, s)
           else
             let new_person = \<lparr>pb_id = next_id (map pb_id (phonebook s)),
                               pb_full_name = full_name person,
                               pb_phone_number = phone_number person\<rparr>
             in (Inr ''Person added successfully'',
                 audit_insert now ''add'' (Some (full_name person)) (Some (phone_number person))
                   (s\<lparr>phonebook := phonebook s @ [new_person]\<rparr>)))"

definition delete_by_name ::
  "unicode \<Rightarrow> unistr \<Rightarrow> nat \<Rightarrow> stores \<Rightarrow> (HTTPException + string) \<times> stores" where
  "delete_by_name U name now s =
     (if \<not> validate_full_name U name then (Inl invalid_input, s)
      else case find (\<lambda>r. pb_full_name r = name) (phonebook s) of
             None \<Rightarrow> (Inl not_found, s)
           | Some person \<Rightarrow>
               (Inr ''Person deleted successfully'',
                audit_insert now ''delete-by-name''
                  (Some (pb_full_name person)) (Some (pb_phone_number person))
                  (s\<lparr>phonebook := filter (\<lambda>r. pb_id r \<noteq> pb_id person) (phonebook s)\<rparr>)))"

definition delete_by_number ::
  "unicode \<Rightarrow> unistr \<Rightarrow> nat \<Rightarrow> stores \<Rightarrow> (HTTPException + string) \<times> stores" where
  "delete_by_number U number now s =
     (if \<not> validate_phone_number U number then (Inl invalid_input, s)
      else case find (\<lambda>r. pb_phone_number r = number) (phonebook s) of
             None \<Rightarrow> (Inl not_found, s)
           | Some person \<Rightarrow>
               (Inr ''Person deleted successfully'',
                audit_insert now ''delete-by-number''
                  (Some (pb_full_name person)) (Some (pb_phone_number person))
                  (s\<lparr>phonebook := filter (\<lambda>r. pb_id r \<noteq> pb_id person) (phonebook s)\<rparr>)))"

subsection \<open>Sequential execution\<close>

datatype request =
    List_Phonebook
  | Add_Person Person
  | Delete_By_Name unistr
  | Delete_By_Number unistr

fun handle :: "unicode \<Rightarrow> request \<Rightarrow> nat \<Rightarrow> stores \<Rightarrow> stores" where
  "handle U List_Phonebook now s = snd (list_phonebook now s)"
| "handle U (Add_Person person) now s = snd (add_person U person now s)"
| "handle U (Delete_By_Name name) now s = snd (delete_by_name U name now s)"
| "handle U (Delete_By_Number number) now s = snd (delete_by_number U number now s)"

fun run :: "unicode \<Rightarrow> (request \<times> nat) list \<Rightarrow> stores \<Rightarrow> stores" where
  "run U [] s = s"
| "run U ((req, now) # reqs) s = run U reqs (handle U req now s)"

definition unique_names :: "stores \<Rightarrow> bool" where
  "unique_names s = distinct (map pb_full_name (phonebook s))"

definition unique_numbers :: "stores \<Rightarrow> bool" where
  "unique_numbers s = distinct (map pb_phone_number (phonebook s))"

subsection \<open>Example data\<close>

definition unicode_excerpt :: unicode where
  \<comment> \<open>an excerpt of the Unicode database for the examples: the decimal digits of four
      scripts (Arabic-Indic, extended Arabic-Indic, Devanagari, fullwidth) and the
      whitespace beyond ASCII\<close>
  "unicode_excerpt =
     \<lparr>uni_decimal = (\<lambda>c. 0x0660 \<le> c \<and> c \<le> 0x0669 \<or> 0x06F0 \<le> c \<and> c \<le> 0x06F9 \<or>
                         0x0966 \<le> c \<and> c \<le> 0x096F \<or> 0xFF10 \<le> c \<and> c \<le> 0xFF19),
      uni_whitespace = (\<lambda>c. c \<in> set [0x85, 0xA0, 0x1680, 0x2000, 0x2001, 0x2002, 0x2003, 0x2004,
                                       0x2005, 0x2006, 0x2007, 0x2008, 0x2009, 0x200A, 0x2028,
                                       0x2029, 0x202F, 0x205F, 0x3000])\<rparr>"

definition arabic_12345 :: unistr where
  \<comment> \<open>the Arabic-Indic digits one to five\<close>
  "arabic_12345 = [0x0661, 0x0662, 0x0663, 0x0664, 0x0665]"

definition empty_stores :: stores where
  "empty_stores = \<lparr>phonebook = [], audit_log = []\<rparr>"

definition john :: Person where
  "john = \<lparr>full_name = str ''John Smith'', phone_number = str ''+1 555-1234''\<rparr>"

definition john_stores :: stores where
  \<comment> \<open>the stores after \<open>john\<close> was added to the empty ones at time 1\<close>
  "john_stores =
     \<lparr>phonebook = [\<lparr>pb_id = 1, pb_full_name = str ''John Smith'',
                     pb_phone_number = str ''+1 555-1234''\<rparr>],
      audit_log = [\<lparr>al_id = 1, al_timestamp = 1, al_action = ''add'',
                    al_full_name = Some (str ''John Smith''),
                    al_phone_number = Some (str ''+1 555-1234'')\<rparr>]\<rparr>"

definition john_deleted :: "string \<Rightarrow> stores" where
  \<comment> \<open>the stores after \<open>john\<close> was deleted from \<open>john_stores\<close> at time 2, with action \<open>a\<close>\<close>
  "john_deleted a =
     \<lparr>phonebook = [],
      audit_log = [\<lparr>al_id = 1, al_timestamp = 1, al_action = ''add'',
                    al_full_name = Some (str ''John Smith''),
                    al_phone_number = Some (str ''+1 555-1234'')\<rparr>,
                   \<lparr>al_id = 2, al_timestamp = 2, al_action = a,
                    al_full_name = Some (str ''John Smith''),
                    al_phone_number = Some (str ''+1 555-1234'')\<rparr>]\<rparr>"

definition scenario :: "(request \<times> nat) list" where
  \<comment> \<open>add, add again under the same name, delete by number, list\<close>
  "scenario =
     [(Add_Person john, 1),
      (Add_Person \<lparr>full_name = str ''John Smith'', phone_number = str ''+1 555-5678''\<rparr>, 2),
      (Delete_By_Number (str ''+1 555-1234''), 3),
      (List_Phonebook, 4)]"

section \<open>What a match consumes\<close>

text \<open>
  \<open>eats x u y\<close>: from position \<open>x\<close> the text \<open>u\<close> was consumed to reach \<open>y\<close>.
  \<open>min_count P r\<close> is a lower bound on the number of characters of class \<open>P\<close> in the
  text any match of \<open>r\<close> consumes, and \<open>only Q r\<close> says that every character a match
  of \<open>r\<close> consumes is of class \<open>Q\<close>; the lookaheads consume nothing.
\<close>

definition eats :: "cursor \<Rightarrow> unistr \<Rightarrow> cursor \<Rightarrow> bool" where
  "eats x u y = (fst y = fst x @ u \<and> snd x = u @ snd y)"

primrec min_count :: "(codepoint \<Rightarrow> bool) \<Rightarrow> regex \<Rightarrow> nat" where
  "min_count P Eps = 0"
| "min_count P (Cls Q) = (if \<forall>c. Q c \<longrightarrow> P c then 1 else 0)"
| "min_count P (Seq a b) = min_count P a + min_count P b"
| "min_count P (Alt a b) = min (min_count P a) (min_count P b)"
| "min_count P (Rep m n r) = m * min_count P r"
| "min_count P Bol = 0"
| "min_count P Eol = 0"
| "min_count P (Ahead r) = 0"
| "min_count P (NotAhead r) = 0"

primrec only :: "(codepoint \<Rightarrow> bool) \<Rightarrow> regex \<Rightarrow> bool" where
  "only Q Eps = True"
| "only Q (Cls P) = (\<forall>c. P c \<longrightarrow> Q c)"
| "only Q (Seq a b) = (only Q a \<and> only Q b)"
| "only Q (Alt a b) = (only Q a \<and> only Q b)"
| "only Q (Rep m n r) = only Q r"
| "only Q Bol = True"
| "only Q Eol = True"
| "only Q (Ahead r) = True"
| "only Q (NotAhead r) = True"

lemma eats_refl: "eats x [] x"
  by (simp add: eats_def)

lemma eats_trans: "eats x u y \<Longrightarrow> eats y v z \<Longrightarrow> eats x (u @ v) z"
  by (simp add: eats_def)

lemma times_count:
  assumes step: "\<And>x y. y \<in> set (f x) \<Longrightarrow> \<exists>u. eats x u y \<and> c \<le> length (filter P u)"
  shows "y \<in> set (times k f x) \<Longrightarrow> \<exists>u. eats x u y \<and> k * c \<le> length (filter P u)"
proof (induction k arbitrary: x)
  case 0
  then show ?case by (auto simp: eats_def)
next
  case (Suc k)
  then obtain z where z: "z \<in> set (f x)" and y: "y \<in> set (times k f z)" by auto
  from step [OF z] obtain u where u: "eats x u z" "c \<le> length (filter P u)" by blast
  from Suc.IH [OF y] obtain v where v: "eats z v y" "k * c \<le> length (filter P v)" by blast
  have "eats x (u @ v) y" using u(1) v(1) by (rule eats_trans)
  moreover have "Suc k * c \<le> length (filter P (u @ v))" using u(2) v(2) by simp
  ultimately show ?case by blast
qed

lemma upto_times_eats:
  assumes step: "\<And>x y. y \<in> set (f x) \<Longrightarrow> \<exists>u. eats x u y \<and> I u"
    and nil: "I []" and app: "\<And>u v. I u \<Longrightarrow> I v \<Longrightarrow> I (u @ v)"
  shows "y \<in> set (upto_times k f x) \<Longrightarrow> \<exists>u. eats x u y \<and> I u"
proof (induction k arbitrary: x)
  case 0
  then show ?case using nil by (auto simp: eats_def)
next
  case (Suc k)
  then consider "y = x" | z where "z \<in> set (f x)" "y \<in> set (upto_times k f z)" by auto
  then show ?case
  proof cases
    case 1
    then show ?thesis using nil by (auto simp: eats_def)
  next
    case 2
    from step [OF 2(1)] obtain u where u: "eats x u z" "I u" by blast
    from Suc.IH [OF 2(2)] obtain v where v: "eats z v y" "I v" by blast
    show ?thesis using eats_trans [OF u(1) v(1)] app [OF u(2) v(2)] by blast
  qed
qed

lemma times_eats:
  assumes step: "\<And>x y. y \<in> set (f x) \<Longrightarrow> \<exists>u. eats x u y \<and> I u"
    and nil: "I []" and app: "\<And>u v. I u \<Longrightarrow> I v \<Longrightarrow> I (u @ v)"
  shows "y \<in> set (times k f x) \<Longrightarrow> \<exists>u. eats x u y \<and> I u"
proof (induction k arbitrary: x)
  case 0
  then show ?case using nil by (auto simp: eats_def)
next
  case (Suc k)
  then obtain z where z: "z \<in> set (f x)" and y: "y \<in> set (times k f z)" by auto
  from step [OF z] obtain u where u: "eats x u z" "I u" by blast
  from Suc.IH [OF y] obtain v where v: "eats z v y" "I v" by blast
  show ?case using eats_trans [OF u(1) v(1)] app [OF u(2) v(2)] by blast
qed

lemma ends_min_count:
  "y \<in> set (ends r x) \<Longrightarrow> \<exists>u. eats x u y \<and> min_count P r \<le> length (filter P u)"
proof (induction r arbitrary: x y)
  case Eps
  then show ?case by (auto simp: eats_def)
next
  case (Cls Q)
  then show ?case by (cases x) (auto simp: eats_def split: list.splits if_splits)
next
  case (Seq a b)
  then obtain z where z: "z \<in> set (ends a x)" and y: "y \<in> set (ends b z)" by auto
  from Seq.IH(1) [OF z] obtain u where u: "eats x u z" "min_count P a \<le> length (filter P u)" by blast
  from Seq.IH(2) [OF y] obtain v where v: "eats z v y" "min_count P b \<le> length (filter P v)" by blast
  have "min_count P (Seq a b) \<le> length (filter P (u @ v))" using u(2) v(2) by simp
  then show ?case using eats_trans [OF u(1) v(1)] by blast
next
  case (Alt a b)
  then have "y \<in> set (ends a x) \<or> y \<in> set (ends b x)" by simp
  then show ?case
  proof
    assume "y \<in> set (ends a x)"
    from Alt.IH(1) [OF this] show ?thesis by auto
  next
    assume "y \<in> set (ends b x)"
    from Alt.IH(2) [OF this] show ?thesis by auto
  qed
next
  case (Rep m n r)
  define k where "k = (case n of None \<Rightarrow> length (snd x) | Some k \<Rightarrow> k - m)"
  from Rep.prems obtain z where z: "z \<in> set (times m (ends r) x)"
    and y: "y \<in> set (upto_times k (ends r) z)" by (auto simp: k_def)
  have step: "\<And>x y. y \<in> set (ends r x) \<Longrightarrow> \<exists>u. eats x u y \<and> min_count P r \<le> length (filter P u)"
    by (rule Rep.IH)
  from times_count [of "ends r" "min_count P r" P, OF step z]
  obtain u where u: "eats x u z" "m * min_count P r \<le> length (filter P u)" by blast
  have "\<exists>v. eats z v y \<and> True"
    by (rule upto_times_eats [of "ends r" "\<lambda>_. True", OF _ _ _ y]) (use step in blast)+
  then obtain v where v: "eats z v y" by blast
  have "min_count P (Rep m n r) \<le> length (filter P (u @ v))" using u(2) by simp
  then show ?case using eats_trans [OF u(1) v] by blast
next
  case Bol
  then show ?case by (auto simp: eats_def split: if_splits)
next
  case Eol
  then show ?case by (auto simp: eats_def split: if_splits)
next
  case (Ahead r)
  then show ?case by (auto simp: eats_def split: if_splits)
next
  case (NotAhead r)
  then show ?case by (auto simp: eats_def split: if_splits)
qed

lemma ends_only:
  "only Q r \<Longrightarrow> y \<in> set (ends r x) \<Longrightarrow> \<exists>u. eats x u y \<and> (\<forall>c\<in>set u. Q c)"
proof (induction r arbitrary: x y)
  case Eps
  then show ?case by (auto simp: eats_def)
next
  case (Cls P)
  then show ?case by (cases x) (auto simp: eats_def split: list.splits if_splits)
next
  case (Seq a b)
  then obtain z where z: "z \<in> set (ends a x)" and y: "y \<in> set (ends b z)" by auto
  from Seq.IH(1) [OF _ z] Seq.prems(1) obtain u where u: "eats x u z" "\<forall>c\<in>set u. Q c" by auto
  from Seq.IH(2) [OF _ y] Seq.prems(1) obtain v where v: "eats z v y" "\<forall>c\<in>set v. Q c" by auto
  have "\<forall>c\<in>set (u @ v). Q c" using u(2) v(2) by auto
  then show ?case using eats_trans [OF u(1) v(1)] by blast
next
  case (Alt a b)
  then have "y \<in> set (ends a x) \<or> y \<in> set (ends b x)" by simp
  then show ?case
  proof
    assume "y \<in> set (ends a x)"
    from Alt.IH(1) [OF _ this] Alt.prems(1) show ?thesis by auto
  next
    assume "y \<in> set (ends b x)"
    from Alt.IH(2) [OF _ this] Alt.prems(1) show ?thesis by auto
  qed
next
  case (Rep m n r)
  define k where "k = (case n of None \<Rightarrow> length (snd x) | Some k \<Rightarrow> k - m)"
  from Rep.prems obtain z where z: "z \<in> set (times m (ends r) x)"
    and y: "y \<in> set (upto_times k (ends r) z)" by (auto simp: k_def)
  have step: "\<And>x y. y \<in> set (ends r x) \<Longrightarrow> \<exists>u. eats x u y \<and> (\<forall>c\<in>set u. Q c)"
    using Rep.IH Rep.prems(1) by simp
  have "\<exists>u. eats x u z \<and> (\<forall>c\<in>set u. Q c)"
    by (rule times_eats [of "ends r" "\<lambda>u. \<forall>c\<in>set u. Q c", OF _ _ _ z]) (use step in auto)
  then obtain u where u: "eats x u z" "\<forall>c\<in>set u. Q c" by blast
  have "\<exists>v. eats z v y \<and> (\<forall>c\<in>set v. Q c)"
    by (rule upto_times_eats [of "ends r" "\<lambda>u. \<forall>c\<in>set u. Q c", OF _ _ _ y]) (use step in auto)
  then obtain v where v: "eats z v y" "\<forall>c\<in>set v. Q c" by blast
  have "\<forall>c\<in>set (u @ v). Q c" using u(2) v(2) by auto
  then show ?case using eats_trans [OF u(1) v(1)] by blast
next
  case Bol
  then show ?case by (auto simp: eats_def split: if_splits)
next
  case Eol
  then show ?case by (auto simp: eats_def split: if_splits)
next
  case (Ahead r)
  then show ?case by (auto simp: eats_def split: if_splits)
next
  case (NotAhead r)
  then show ?case by (auto simp: eats_def split: if_splits)
qed

section \<open>Properties of the validators\<close>

lemma upto_times_not_Nil: "upto_times k f x \<noteq> []"
  by (cases k) simp_all

lemma times_Cls:
  "\<forall>c\<in>set u. P c \<Longrightarrow> times (length u) (ends (Cls P)) (p, u @ t) = [(p @ u, t)]"
  by (induction u arbitrary: p) simp_all

lemma ends_Seq_iff:
  "y \<in> set (ends (Seq a b) x) \<longleftrightarrow> (\<exists>z\<in>set (ends a x). y \<in> set (ends b z))"
  by auto

lemma eats_start: "eats ([], s) u y \<Longrightarrow> s = u @ snd y"
  by (simp add: eats_def)

lemma validate_phone_number_iff:
  "validate_phone_number U s \<longleftrightarrow>
     ends (phone_prefix_guard U) ([], s) = [] \<and>
     (\<exists>y\<in>set (ends (phone_body U) ([], s)). snd y = [] \<or> snd y = [0x0A])"
proof -
  have "validate_phone_number U s \<longleftrightarrow> (\<exists>y. y \<in> set (ends (phone_pattern U) ([], s)))"
    by (cases "ends (phone_pattern U) ([], s)") (auto simp: validate_phone_number_def re_match_def)
  also have "\<dots> \<longleftrightarrow> ends (phone_prefix_guard U) ([], s) = [] \<and>
     (\<exists>y\<in>set (ends (phone_body U) ([], s)). snd y = [] \<or> snd y = [0x0A])"
    by (force simp: phone_pattern_def seqs_def split: if_splits)
  finally show ?thesis .
qed

lemma validate_full_name_iff:
  "validate_full_name U s \<longleftrightarrow>
     ends name_length_guard ([], s) \<noteq> [] \<and>
     (\<exists>y\<in>set (ends (name_shapes U) ([], s)). snd y = [] \<or> snd y = [0x0A])"
proof -
  have "validate_full_name U s \<longleftrightarrow> (\<exists>y. y \<in> set (ends (name_pattern U) ([], s)))"
    by (cases "ends (name_pattern U) ([], s)") (auto simp: validate_full_name_def re_match_def)
  also have "\<dots> \<longleftrightarrow> ends name_length_guard ([], s) \<noteq> [] \<and>
     (\<exists>y\<in>set (ends (name_shapes U) ([], s)). snd y = [] \<or> snd y = [0x0A])"
    by (force simp: name_pattern_def seqs_def split: if_splits)
  finally show ?thesis .
qed

lemma guard_fires:
  assumes "6 \<le> length (takeWhile (digit U) s)"
  shows "ends (phone_prefix_guard U) (p, s) \<noteq> []"
proof -
  define u where "u = take 6 (takeWhile (digit U) s)"
  define t where "t = drop 6 (takeWhile (digit U) s) @ dropWhile (digit U) s"
  have s: "s = u @ t"
    by (simp add: u_def t_def flip: append_assoc)
  have len: "length u = 6" using assms by (simp add: u_def)
  have "set u \<subseteq> set (takeWhile (digit U) s)" unfolding u_def by (rule set_take_subset)
  then have dig: "\<forall>c\<in>set u. digit U c" by (auto dest: set_takeWhileD)
  have "times 6 (ends (Cls (digit U))) (p, u @ t) = [(p @ u, t)]"
    using times_Cls [OF dig, of p t] len by simp
  then show ?thesis
    by (simp add: phone_prefix_guard_def s upto_times_not_Nil)
qed

lemma ascii_digit_is_digit:
  "of_char CHR ''0'' \<le> c \<Longrightarrow> c \<le> of_char CHR ''9'' \<Longrightarrow> digit U c"
  by (simp add: digit_def)

text \<open>
  Claim C2. A phone number that \<open>validate_phone_number\<close> accepts starts with a run of
  at most five digits, and a string that starts with six or more digits is rejected
  whatever follows them: the negative lookahead \<^verbatim>\<open>(?!(\d{6,}))\<close> fails on it. A digit
  is a character of the class \<^verbatim>\<open>\d\<close>, which holds \<^verbatim>\<open>0\<close> to \<^verbatim>\<open>9\<close>; so the same is true of
  runs of \<^verbatim>\<open>0\<close> to \<^verbatim>\<open>9\<close> alone.
\<close>

theorem phone_leading_digits:
  "(validate_phone_number U s \<longrightarrow> length (takeWhile (digit U) s) \<le> 5) \<and>
   (6 \<le> length ds \<and> list_all (digit U) ds \<longrightarrow> \<not> validate_phone_number U (ds @ rest))"
proof (intro conjI impI)
  assume "validate_phone_number U s"
  then have "ends (phone_prefix_guard U) ([], s) = []" by (simp add: validate_phone_number_iff)
  with guard_fires [where U = U and s = s and p = "[]"] show "length (takeWhile (digit U) s) \<le> 5" by force
next
  assume a: "6 \<le> length ds \<and> list_all (digit U) ds"
  then have "takeWhile (digit U) (ds @ rest) = ds @ takeWhile (digit U) rest"
    by (simp add: list_all_iff)
  with a have "6 \<le> length (takeWhile (digit U) (ds @ rest))" by simp
  from guard_fires [OF this, where p = "[]"] show "\<not> validate_phone_number U (ds @ rest)"
    by (simp add: validate_phone_number_iff)
qed

theorem phone_leading_digits_witness:
  "validate_phone_number unicode_excerpt (str ''12345-6789'') \<and>
   length (takeWhile (digit unicode_excerpt) (str ''12345-6789'')) \<le> 5 \<and>
   6 \<le> length (str ''123456'') \<and> list_all (digit unicode_excerpt) (str ''123456'') \<and>
   \<not> validate_phone_number unicode_excerpt (str ''123456'' @ str ''-7890'')"
proof -
  have v: "validate_phone_number unicode_excerpt (str ''12345-6789'')" by code_simp
  have h: "6 \<le> length (str ''123456'') \<and> list_all (digit unicode_excerpt) (str ''123456'')"
    by code_simp
  from phone_leading_digits [where U = unicode_excerpt and s = "str ''12345-6789''"
      and ds = "str ''123456''" and rest = "str ''-7890''"] v h
  show ?thesis by blast
qed

lemma phone_pattern_min_digits: "5 \<le> min_count (digit U) (phone_pattern U)"
  by (simp add: phone_pattern_def phone_body_def seqs_def opt_def)

text \<open>
  Claim C9. Every phone number that \<open>validate_phone_number\<close> accepts contains at least
  five digits: its three compulsory digit groups take two, two and one. So a string with
  fewer than five digits is rejected, the empty string among them. A digit is what the
  pattern counts, a character of the class \<^verbatim>\<open>\d\<close>: the five Arabic-Indic digits of
  \<open>arabic_12345\<close> are an accepted phone number.
\<close>

theorem phone_at_least_five_digits:
  "(validate_phone_number U s \<longrightarrow> 5 \<le> length (filter (digit U) s)) \<and>
   (length (filter (digit U) s) < 5 \<longrightarrow> \<not> validate_phone_number U s) \<and>
   \<not> validate_phone_number U []"
proof -
  have main: "5 \<le> length (filter (digit U) s)" if "validate_phone_number U s" for s
  proof -
    from that obtain y where "y \<in> set (ends (phone_pattern U) ([], s))"
      by (cases "ends (phone_pattern U) ([], s)") (auto simp: validate_phone_number_def re_match_def)
    from ends_min_count [OF this, of "digit U"]
    obtain u where u: "eats ([], s) u y" "min_count (digit U) (phone_pattern U) \<le> length (filter (digit U) u)"
      by blast
    from u(1) have "s = u @ snd y" by (rule eats_start)
    then have "length (filter (digit U) u) \<le> length (filter (digit U) s)" by simp
    with u(2) phone_pattern_min_digits [of U] show ?thesis by linarith
  qed
  from main [of s] main [of "[]"] show ?thesis by auto
qed

theorem phone_at_least_five_digits_witness:
  "validate_phone_number unicode_excerpt (str ''12345'') \<and>
   5 \<le> length (filter (digit unicode_excerpt) (str ''12345'')) \<and>
   validate_phone_number unicode_excerpt arabic_12345 \<and>
   5 \<le> length (filter (digit unicode_excerpt) arabic_12345) \<and>
   length (filter (digit unicode_excerpt) (str ''555-1'')) < 5 \<and>
   \<not> validate_phone_number unicode_excerpt (str ''555-1'')"
proof -
  have v: "validate_phone_number unicode_excerpt (str ''12345'')"
    "validate_phone_number unicode_excerpt arabic_12345" by code_simp+
  have h: "length (filter (digit unicode_excerpt) (str ''555-1'')) < 5" by code_simp
  from phone_at_least_five_digits [where U = unicode_excerpt and s = "str ''12345''"]
    phone_at_least_five_digits [where U = unicode_excerpt and s = arabic_12345]
    phone_at_least_five_digits [where U = unicode_excerpt and s = "str ''555-1''"] v h
  show ?thesis by blast
qed

lemma alpha_not_hyphen: "alpha c \<Longrightarrow> c \<noteq> of_char CHR ''-''"
  by (auto simp: alpha_def upper_def)

lemma upper_not_hyphen: "upper c \<Longrightarrow> c \<noteq> of_char CHR ''-''"
  by (auto simp: upper_def)

lemma space_not_hyphen: "space U c \<Longrightarrow> c \<noteq> of_char CHR ''-''"
  by (auto simp: space_def)

lemma no_hyphen_alts:
  "only (\<lambda>c. c \<noteq> of_char CHR ''-'') (name_alt1 U)" "only (\<lambda>c. c \<noteq> of_char CHR ''-'') (name_alt2 U)"
  "only (\<lambda>c. c \<noteq> of_char CHR ''-'') (name_alt4 U)" "only (\<lambda>c. c \<noteq> of_char CHR ''-'') (name_alt5 U)"
  "only (\<lambda>c. c \<noteq> of_char CHR ''-'') (name_alt6 U)" "only (\<lambda>c. c \<noteq> of_char CHR ''-'') (name_alt7 U)"
  by (simp_all add: name_alt1_def name_alt2_def name_alt4_def name_alt5_def name_alt6_def
      name_alt7_def seqs_def plus_def opt_def star_def lit_def space_or_alpha_def
      alpha_not_hyphen [simplified] space_not_hyphen [simplified] upper_not_hyphen [simplified])

lemma apostrophe_alt3: "1 \<le> min_count (\<lambda>c. c = of_char (CHR 0x27)) (name_alt3 U)"
  by (simp add: name_alt3_def seqs_def plus_def opt_def lit_def)

lemma ends_name_shapes:
  "set (ends (name_shapes U) x) =
     set (ends (name_alt1 U) x) \<union> set (ends (name_alt2 U) x) \<union> set (ends (name_alt3 U) x) \<union>
     set (ends (name_alt4 U) x) \<union> set (ends (name_alt5 U) x) \<union> set (ends (name_alt6 U) x) \<union>
     set (ends (name_alt7 U) x)"
  by (simp add: name_shapes_def alts_def Un_assoc)

lemma no_hyphen_consumed:
  assumes "only (\<lambda>c. c \<noteq> of_char CHR ''-'') r" and "y \<in> set (ends r ([], s))"
    and "snd y = [] \<or> snd y = [0x0A]"
  shows "of_char CHR ''-'' \<notin> set s"
proof -
  from ends_only [OF assms(1,2)] obtain u where u: "eats ([], s) u y" "\<forall>c\<in>set u. c \<noteq> of_char CHR ''-''"
    by blast
  from u(1) have "s = u @ snd y" by (rule eats_start)
  then have "set s = set u \<union> set (snd y)" by (metis set_append)
  moreover have "of_char CHR ''-'' \<notin> set (snd y)" using assms(3) by auto
  moreover have "of_char CHR ''-'' \<notin> set u" using u(2) by blast
  ultimately show ?thesis by blast
qed

lemma apostrophe_consumed:
  assumes "y \<in> set (ends (name_alt3 U) ([], s))"
  shows "of_char (CHR 0x27) \<in> set s"
proof -
  from ends_min_count [OF assms, of "\<lambda>c. c = of_char (CHR 0x27)"]
  obtain u where u: "eats ([], s) u y"
    "min_count (\<lambda>c. c = of_char (CHR 0x27)) (name_alt3 U) \<le> length (filter (\<lambda>c. c = of_char (CHR 0x27)) u)"
    by blast
  from u(2) apostrophe_alt3 [of U] have "filter (\<lambda>c. c = of_char (CHR 0x27)) u \<noteq> []" by auto
  then have "\<exists>c\<in>set u. c = of_char (CHR 0x27)" by (simp add: filter_empty_conv)
  then have "of_char (CHR 0x27) \<in> set u" by blast
  moreover from u(1) have "s = u @ snd y" by (rule eats_start)
  ultimately show ?thesis by (metis UnCI set_append)
qed

text \<open>
  Claim C10. \<open>validate_full_name\<close> accepts a name with a hyphen only if the name also has
  an apostrophe: of the seven shapes only the third can consume a hyphen, and that shape
  requires an apostrophe. So a name with a hyphen and no apostrophe, such as a plain
  hyphenated surname, is rejected.
\<close>

theorem hyphen_needs_apostrophe:
  "(validate_full_name U s \<and> of_char CHR ''-'' \<in> set s \<longrightarrow> of_char (CHR 0x27) \<in> set s) \<and>
   (of_char CHR ''-'' \<in> set s \<and> of_char (CHR 0x27) \<notin> set s \<longrightarrow> \<not> validate_full_name U s)"
proof -
  have main: "of_char (CHR 0x27) \<in> set s" if v: "validate_full_name U s" and h: "of_char CHR ''-'' \<in> set s"
  proof -
    from v obtain y where y: "y \<in> set (ends (name_shapes U) ([], s))"
      and e: "snd y = [] \<or> snd y = [0x0A]"
      unfolding validate_full_name_iff by blast
    have not: "y \<notin> set (ends r ([], s))" if "only (\<lambda>c. c \<noteq> of_char CHR ''-'') r" for r
      using no_hyphen_consumed [OF that _ e] h by blast
    from y have "y \<in> set (ends (name_alt3 U) ([], s))"
      unfolding ends_name_shapes using no_hyphen_alts [THEN not] by blast
    then show ?thesis by (rule apostrophe_consumed)
  qed
  then show ?thesis by blast
qed

theorem hyphen_needs_apostrophe_witness:
  "validate_full_name unicode_excerpt (str ''Mary O'Malley-Jones'') \<and>
   of_char CHR ''-'' \<in> set (str ''Mary O'Malley-Jones'') \<and>
   of_char (CHR 0x27) \<in> set (str ''Mary O'Malley-Jones'') \<and>
   of_char CHR ''-'' \<in> set (str ''Mary Smith-Jones'') \<and>
   of_char (CHR 0x27) \<notin> set (str ''Mary Smith-Jones'') \<and>
   \<not> validate_full_name unicode_excerpt (str ''Mary Smith-Jones'')"
proof -
  have v: "validate_full_name unicode_excerpt (str ''Mary O'Malley-Jones'')" by code_simp
  have h: "of_char CHR ''-'' \<in> set (str ''Mary O'Malley-Jones'')"
    "of_char CHR ''-'' \<in> set (str ''Mary Smith-Jones'')"
    "of_char (CHR 0x27) \<notin> set (str ''Mary Smith-Jones'')" by (simp_all add: str_def)
  from hyphen_needs_apostrophe [where U = unicode_excerpt and s = "str ''Mary O'Malley-Jones''"]
    hyphen_needs_apostrophe [where U = unicode_excerpt and s = "str ''Mary Smith-Jones''"] v h
  show ?thesis by blast
qed

text \<open>
  The lookahead \<^verbatim>\<open>(?=.{1,35}$)\<close> bounds the length of an accepted name: it is never
  empty and has at most 35 characters before the position where \<^verbatim>\<open>$\<close> matched, which
  is the end of the name or a line feed that ends it.
\<close>

lemma ends_Cls_one: "y \<in> set (ends (Cls P) x) \<Longrightarrow> \<exists>c. eats x [c] y"
  by (cases x) (auto simp: eats_def split: list.splits if_splits)

lemma times_Cls_length:
  "y \<in> set (times k (ends (Cls P)) x) \<Longrightarrow> \<exists>u. eats x u y \<and> length u = k"
proof (induction k arbitrary: x)
  case 0
  then show ?case by (auto simp: eats_def)
next
  case (Suc k)
  then obtain z where z: "z \<in> set (ends (Cls P) x)" and y: "y \<in> set (times k (ends (Cls P)) z)"
    by auto
  from ends_Cls_one [OF z] obtain c where c: "eats x [c] z" by blast
  from Suc.IH [OF y] obtain v where v: "eats z v y" "length v = k" by blast
  from eats_trans [OF c v(1)] v(2) show ?case by fastforce
qed

lemma upto_times_Cls_length:
  "y \<in> set (upto_times k (ends (Cls P)) x) \<Longrightarrow> \<exists>u. eats x u y \<and> length u \<le> k"
proof (induction k arbitrary: x)
  case 0
  then show ?case by (auto simp: eats_def)
next
  case (Suc k)
  then consider "y = x" | z where "z \<in> set (ends (Cls P) x)" "y \<in> set (upto_times k (ends (Cls P)) z)"
    by auto
  then show ?case
  proof cases
    case 1
    then show ?thesis by (auto simp: eats_def)
  next
    case 2
    from ends_Cls_one [OF 2(1)] obtain c where c: "eats x [c] z" by blast
    from Suc.IH [OF 2(2)] obtain v where v: "eats z v y" "length v \<le> k" by blast
    from eats_trans [OF c v(1)] v(2) show ?thesis by fastforce
  qed
qed

lemma ends_Rep_Some_iff:
  "z \<in> set (ends (Rep m (Some n) r) x) \<longleftrightarrow>
     (\<exists>w\<in>set (times m (ends r) x). z \<in> set (upto_times (n - m) (ends r) w))"
  by simp

lemma ends_then_Eol:
  "y \<in> set (ends (Seq a (Seq Eol Eps)) x) \<Longrightarrow>
     y \<in> set (ends a x) \<and> (snd y = [] \<or> snd y = [0x0A])"
  by (auto split: if_splits)

lemma ends_Rep_Cls_length:
  assumes "z \<in> set (ends (Rep m (Some n) (Cls P)) x)"
  shows "\<exists>u. eats x u z \<and> m \<le> length u \<and> length u \<le> m + (n - m)"
proof -
  from assms [unfolded ends_Rep_Some_iff] obtain w
    where w: "w \<in> set (times m (ends (Cls P)) x)"
      and z: "z \<in> set (upto_times (n - m) (ends (Cls P)) w)" by blast
  from times_Cls_length [OF w] obtain u where u: "eats x u w" "length u = m" by blast
  from upto_times_Cls_length [OF z] obtain v where v: "eats w v z" "length v \<le> n - m" by blast
  from eats_trans [OF u(1) v(1)] u(2) v(2) show ?thesis by fastforce
qed

lemma name_length_guard_eq:
  "name_length_guard = Seq (Rep 1 (Some 35) (Cls dot)) (Seq Eol Eps)"
  by (simp add: name_length_guard_def seqs_def)

lemma accepted_name_length:
  assumes "validate_full_name U s"
  shows "1 \<le> length s \<and> length s \<le> 36 \<and> (35 < length s \<longrightarrow> last s = 0x0A)"
proof -
  from assms have "ends name_length_guard ([], s) \<noteq> []" by (simp add: validate_full_name_iff)
  then obtain z where "z \<in> set (ends name_length_guard ([], s))"
    by (cases "ends name_length_guard ([], s)") auto
  from ends_then_Eol [OF this [unfolded name_length_guard_eq]]
  have z: "z \<in> set (ends (Rep 1 (Some 35) (Cls dot)) ([], s))"
    and e: "snd z = [] \<or> snd z = [0x0A]" by blast+
  from ends_Rep_Cls_length [OF z] obtain u
    where u: "eats ([], s) u z" "1 \<le> length u" "length u \<le> 1 + (35 - 1)" by blast
  from u(1) have "s = u @ snd z" by (rule eats_start)
  with u(2,3) e show ?thesis by auto
qed

text \<open>
  Claim C3. The claim bounds the length of an accepted name by 35. The lookahead is
  written for that bound, but \<^verbatim>\<open>$\<close> also matches just before a final line feed: a
  name of 35 characters followed by a line feed has 36 characters and
  \<open>validate_full_name\<close> accepts it. By \<open>accepted_name_length\<close> this is the only way
  past the bound.
\<close>

theorem name_of_length_36_accepted:
  "validate_full_name U (str ''O'Shaughnessyson, Bartholomewson X.'' @ [0x0A]) \<and>
   length (str ''O'Shaughnessyson, Bartholomewson X.'' @ [0x0A]) = 36"
proof
  show "validate_full_name U (str ''O'Shaughnessyson, Bartholomewson X.'' @ [0x0A])"
    by code_simp
  show "length (str ''O'Shaughnessyson, Bartholomewson X.'' @ [0x0A]) = 36"
    by (simp add: str_def)
qed

section \<open>Properties of the handlers\<close>

lemma find_None_map: "find (\<lambda>r. f r = k) rows = None \<longleftrightarrow> k \<notin> set (map f rows)"
  by (auto simp: find_None_iff)

lemma find_SomeD: "find P rows = Some r \<Longrightarrow> r \<in> set rows \<and> P r"
  by (induction rows) (auto split: if_splits)

lemma distinct_map_filter_rows: "distinct (map f rows) \<Longrightarrow> distinct (map f (filter P rows))"
  by (induction rows) auto

lemma status_codes:
  "status_code invalid_input = 400" "status_code number_exists = 400"
  "status_code person_exists = 400" "status_code not_found = 404"
  by (simp_all add: invalid_input_def number_exists_def person_exists_def not_found_def)

lemma add_person_cases:
  "add_person U p now s =
     (if \<not> validate_full_name U (full_name p) \<or> \<not> validate_phone_number U (phone_number p)
      then (Inl invalid_input, s)
      else if phone_number p \<in> set (map pb_phone_number (phonebook s)) then (Inl number_exists, s)
      else if full_name p \<in> set (map pb_full_name (phonebook s)) then (Inl person_exists, s)
      else (Inr ''Person added successfully'',
            audit_insert now ''add'' (Some (full_name p)) (Some (phone_number p))
              (s\<lparr>phonebook := phonebook s @
                   [\<lparr>pb_id = next_id (map pb_id (phonebook s)), pb_full_name = full_name p,
                     pb_phone_number = phone_number p\<rparr>]\<rparr>)))"
  unfolding add_person_def Let_def find_None_map by simp

lemma john_added:
  "add_person U john 1 empty_stores = (Inr ''Person added successfully'', john_stores)"
  by code_simp

lemma valid_examples:
  "validate_full_name U (str ''John Smith'')" "validate_full_name U (str ''Jane Doe'')"
  "validate_phone_number U (str ''+1 555-1234'')" "validate_phone_number U (str ''+1 555-5678'')"
  by code_simp+

lemma delete_by_name_success:
  assumes "delete_by_name U name now s = (Inr m, s')"
  shows "\<exists>c. find (\<lambda>r. pb_full_name r = name) (phonebook s) = Some c \<and>
              s' = audit_insert now ''delete-by-name'' (Some (pb_full_name c)) (Some (pb_phone_number c))
                     (s\<lparr>phonebook := filter (\<lambda>r. pb_id r \<noteq> pb_id c) (phonebook s)\<rparr>)"
  using assms by (auto simp: delete_by_name_def split: if_splits option.splits)

lemma delete_by_number_success:
  assumes "delete_by_number U number now s = (Inr m, s')"
  shows "\<exists>c. find (\<lambda>r. pb_phone_number r = number) (phonebook s) = Some c \<and>
              s' = audit_insert now ''delete-by-number'' (Some (pb_full_name c)) (Some (pb_phone_number c))
                     (s\<lparr>phonebook := filter (\<lambda>r. pb_id r \<noteq> pb_id c) (phonebook s)\<rparr>)"
  using assms by (auto simp: delete_by_number_def split: if_splits option.splits)

lemma john_deleted_by_name:
  "delete_by_name U (str ''John Smith'') 2 john_stores =
     (Inr ''Person deleted successfully'', john_deleted ''delete-by-name'')"
  by code_simp

lemma john_deleted_by_number:
  "delete_by_number U (str ''+1 555-1234'') 2 john_stores =
     (Inr ''Person deleted successfully'', john_deleted ''delete-by-number'')"
  by code_simp

text \<open>
  Claim C1. A successful call of the add, delete-by-name or delete-by-number handler
  appends exactly one row to the audit log. Its action is \<^verbatim>\<open>add\<close>, \<^verbatim>\<open>delete-by-name\<close> or
  \<^verbatim>\<open>delete-by-number\<close>, and its name and number are those of the contact that was added
  or deleted: for a deletion by name the number is the one stored in the deleted row,
  for a deletion by number the name is the one stored there.
\<close>

theorem audit_entry_on_success:
  "(add_person U person now s = (Inr m, s') \<longrightarrow>
      (\<exists>e. audit_log s' = audit_log s @ [e] \<and> al_action e = ''add'' \<and>
           al_full_name e = Some (full_name person) \<and>
           al_phone_number e = Some (phone_number person)) \<and>
      (\<exists>c. phonebook s' = phonebook s @ [c] \<and> pb_full_name c = full_name person \<and>
           pb_phone_number c = phone_number person)) \<and>
   (delete_by_name U name now s = (Inr m, s') \<longrightarrow>
      (\<exists>c e. c \<in> set (phonebook s) \<and> c \<notin> set (phonebook s') \<and> pb_full_name c = name \<and>
             audit_log s' = audit_log s @ [e] \<and> al_action e = ''delete-by-name'' \<and>
             al_full_name e = Some name \<and> al_phone_number e = Some (pb_phone_number c))) \<and>
   (delete_by_number U number now s = (Inr m, s') \<longrightarrow>
      (\<exists>c e. c \<in> set (phonebook s) \<and> c \<notin> set (phonebook s') \<and> pb_phone_number c = number \<and>
             audit_log s' = audit_log s @ [e] \<and> al_action e = ''delete-by-number'' \<and>
             al_full_name e = Some (pb_full_name c) \<and> al_phone_number e = Some number))"
proof (intro conjI impI)
  assume "add_person U person now s = (Inr m, s')"
  then have s': "s' = audit_insert now ''add'' (Some (full_name person)) (Some (phone_number person))
              (s\<lparr>phonebook := phonebook s @
                   [\<lparr>pb_id = next_id (map pb_id (phonebook s)), pb_full_name = full_name person,
                     pb_phone_number = phone_number person\<rparr>]\<rparr>)"
    unfolding add_person_cases by (auto split: if_splits)
  show "\<exists>e. audit_log s' = audit_log s @ [e] \<and> al_action e = ''add'' \<and>
           al_full_name e = Some (full_name person) \<and>
           al_phone_number e = Some (phone_number person)"
    by (simp add: s' audit_insert_def)
  show "\<exists>c. phonebook s' = phonebook s @ [c] \<and> pb_full_name c = full_name person \<and>
           pb_phone_number c = phone_number person"
    by (simp add: s' audit_insert_def)
next
  assume "delete_by_name U name now s = (Inr m, s')"
  from delete_by_name_success [OF this] obtain c
    where c: "find (\<lambda>r. pb_full_name r = name) (phonebook s) = Some c"
      and s': "s' = audit_insert now ''delete-by-name'' (Some (pb_full_name c)) (Some (pb_phone_number c))
                     (s\<lparr>phonebook := filter (\<lambda>r. pb_id r \<noteq> pb_id c) (phonebook s)\<rparr>)"
    by blast
  from find_SomeD [OF c] have "c \<in> set (phonebook s)" "pb_full_name c = name" by simp_all
  moreover have "c \<notin> set (phonebook s')" by (simp add: s' audit_insert_def)
  moreover have "\<exists>e. audit_log s' = audit_log s @ [e] \<and> al_action e = ''delete-by-name'' \<and>
             al_full_name e = Some (pb_full_name c) \<and> al_phone_number e = Some (pb_phone_number c)"
    by (simp add: s' audit_insert_def)
  ultimately show "\<exists>c e. c \<in> set (phonebook s) \<and> c \<notin> set (phonebook s') \<and> pb_full_name c = name \<and>
             audit_log s' = audit_log s @ [e] \<and> al_action e = ''delete-by-name'' \<and>
             al_full_name e = Some name \<and> al_phone_number e = Some (pb_phone_number c)"
    by blast
next
  assume "delete_by_number U number now s = (Inr m, s')"
  from delete_by_number_success [OF this] obtain c
    where c: "find (\<lambda>r. pb_phone_number r = number) (phonebook s) = Some c"
      and s': "s' = audit_insert now ''delete-by-number'' (Some (pb_full_name c)) (Some (pb_phone_number c))
                     (s\<lparr>phonebook := filter (\<lambda>r. pb_id r \<noteq> pb_id c) (phonebook s)\<rparr>)"
    by blast
  from find_SomeD [OF c] have "c \<in> set (phonebook s)" "pb_phone_number c = number" by simp_all
  moreover have "c \<notin> set (phonebook s')" by (simp add: s' audit_insert_def)
  moreover have "\<exists>e. audit_log s' = audit_log s @ [e] \<and> al_action e = ''delete-by-number'' \<and>
             al_full_name e = Some (pb_full_name c) \<and> al_phone_number e = Some (pb_phone_number c)"
    by (simp add: s' audit_insert_def)
  ultimately show "\<exists>c e. c \<in> set (phonebook s) \<and> c \<notin> set (phonebook s') \<and> pb_phone_number c = number \<and>
             audit_log s' = audit_log s @ [e] \<and> al_action e = ''delete-by-number'' \<and>
             al_full_name e = Some (pb_full_name c) \<and> al_phone_number e = Some number"
    by blast
qed

theorem audit_entry_on_success_witness:
  "add_person unicode_excerpt john 1 empty_stores =
     (Inr ''Person added successfully'', john_stores) \<and>
   (\<exists>e. audit_log john_stores = audit_log empty_stores @ [e] \<and> al_action e = ''add'' \<and>
        al_full_name e = Some (full_name john) \<and> al_phone_number e = Some (phone_number john)) \<and>
   delete_by_name unicode_excerpt (str ''John Smith'') 2 john_stores =
     (Inr ''Person deleted successfully'', john_deleted ''delete-by-name'') \<and>
   (\<exists>c e. c \<in> set (phonebook john_stores) \<and> c \<notin> set (phonebook (john_deleted ''delete-by-name'')) \<and>
          pb_full_name c = str ''John Smith'' \<and>
          audit_log (john_deleted ''delete-by-name'') = audit_log john_stores @ [e] \<and>
          al_action e = ''delete-by-name'' \<and> al_full_name e = Some (str ''John Smith'') \<and>
          al_phone_number e = Some (pb_phone_number c)) \<and>
   delete_by_number unicode_excerpt (str ''+1 555-1234'') 2 john_stores =
     (Inr ''Person deleted successfully'', john_deleted ''delete-by-number'') \<and>
   (\<exists>c e. c \<in> set (phonebook john_stores) \<and> c \<notin> set (phonebook (john_deleted ''delete-by-number'')) \<and>
          pb_phone_number c = str ''+1 555-1234'' \<and>
          audit_log (john_deleted ''delete-by-number'') = audit_log john_stores @ [e] \<and>
          al_action e = ''delete-by-number'' \<and> al_full_name e = Some (pb_full_name c) \<and>
          al_phone_number e = Some (str ''+1 555-1234''))"
  using audit_entry_on_success [where U = unicode_excerpt and person = john and now = 1
      and s = empty_stores and m = "''Person added successfully''" and s' = john_stores]
    audit_entry_on_success [where U = unicode_excerpt and now = 2 and s = john_stores
      and m = "''Person deleted successfully''" and s' = "john_deleted ''delete-by-name''"
      and name = "str ''John Smith''"]
    audit_entry_on_success [where U = unicode_excerpt and now = 2 and s = john_stores
      and m = "''Person deleted successfully''" and s' = "john_deleted ''delete-by-number''"
      and number = "str ''+1 555-1234''"]
    john_added [of unicode_excerpt] john_deleted_by_name [of unicode_excerpt]
    john_deleted_by_number [of unicode_excerpt]
  by blast

text \<open>
  Claim C4. An add request that fails, because the name or the number is malformed or
  because the number or the name is already stored, is answered with status 400 and
  leaves both stores as they were: no row is inserted and no audit row is written.
\<close>

theorem add_person_failure:
  "(\<not> validate_full_name U (full_name p) \<or> \<not> validate_phone_number U (phone_number p) \<or>
    phone_number p \<in> set (map pb_phone_number (phonebook s)) \<or>
    full_name p \<in> set (map pb_full_name (phonebook s))
    \<longrightarrow> (\<exists>e. add_person U p now s = (Inl e, s) \<and> status_code e = 400)) \<and>
   (add_person U p now s = (Inl e', s') \<longrightarrow> status_code e' = 400 \<and> s' = s)"
  unfolding add_person_cases by (auto simp: status_codes split: if_splits)

theorem add_person_failure_witness:
  "phone_number john \<in> set (map pb_phone_number (phonebook john_stores)) \<and>
   (\<exists>e. add_person unicode_excerpt john 2 john_stores = (Inl e, john_stores) \<and>
        status_code e = 400) \<and>
   add_person unicode_excerpt john 2 john_stores = (Inl number_exists, john_stores) \<and>
   status_code number_exists = 400"
proof -
  have h: "phone_number john \<in> set (map pb_phone_number (phonebook john_stores))"
    by (simp add: john_def john_stores_def)
  have r: "add_person unicode_excerpt john 2 john_stores = (Inl number_exists, john_stores)"
    using h valid_examples by (simp add: add_person_cases john_def)
  from add_person_failure [where U = unicode_excerpt and p = john and s = john_stores
      and now = 2 and e' = number_exists and s' = john_stores] h r
  show ?thesis by blast
qed

text \<open>
  Claim C5. Deleting by a well-formed name or number that no stored contact has is
  answered with status 404 and leaves both stores as they were.
\<close>

theorem delete_absent_key:
  "(validate_full_name U name \<and> name \<notin> set (map pb_full_name (phonebook s))
    \<longrightarrow> delete_by_name U name now s =
          (Inl \<lparr>status_code = 404, detail = ''Person not found in the database''\<rparr>, s)) \<and>
   (validate_phone_number U number \<and> number \<notin> set (map pb_phone_number (phonebook s))
    \<longrightarrow> delete_by_number U number now s =
          (Inl \<lparr>status_code = 404, detail = ''Person not found in the database''\<rparr>, s))"
  by (auto simp: delete_by_name_def delete_by_number_def not_found_def
      split: option.splits dest: find_SomeD)

theorem delete_absent_key_witness:
  "validate_full_name unicode_excerpt (str ''Jane Doe'') \<and>
   str ''Jane Doe'' \<notin> set (map pb_full_name (phonebook john_stores)) \<and>
   delete_by_name unicode_excerpt (str ''Jane Doe'') 2 john_stores =
     (Inl \<lparr>status_code = 404, detail = ''Person not found in the database''\<rparr>, john_stores) \<and>
   validate_phone_number unicode_excerpt (str ''+1 555-5678'') \<and>
   str ''+1 555-5678'' \<notin> set (map pb_phone_number (phonebook john_stores)) \<and>
   delete_by_number unicode_excerpt (str ''+1 555-5678'') 2 john_stores =
     (Inl \<lparr>status_code = 404, detail = ''Person not found in the database''\<rparr>, john_stores)"
proof -
  have h: "str ''Jane Doe'' \<notin> set (map pb_full_name (phonebook john_stores))"
    "str ''+1 555-5678'' \<notin> set (map pb_phone_number (phonebook john_stores))"
    by (simp_all add: john_stores_def str_def)
  from delete_absent_key [where U = unicode_excerpt and name = "str ''Jane Doe''"
      and s = john_stores and now = 2 and number = "str ''+1 555-5678''"]
    h valid_examples [of unicode_excerpt]
  show ?thesis by blast
qed

text \<open>
  Claim C6, amended. After a successful add of a name and a number, a further add
  request with the same number and a well-formed name is refused with status 400,
  "Phone number already exists in the database"; one with the same name and a
  well-formed number not yet stored is refused with status 400, "Person already exists
  in the database". The number is checked first: in any stores where both the number
  and the name of a well-formed request are present, the answer is the one about the
  number.
\<close>

theorem add_twice_conflict:
  assumes "add_person U p t s = (Inr m, s')"
  shows "(validate_full_name U (full_name q) \<and> phone_number q = phone_number p
          \<longrightarrow> add_person U q t' s' =
                (Inl \<lparr>status_code = 400, detail = ''Phone number already exists in the database''\<rparr>, s')) \<and>
         (full_name q = full_name p \<and> validate_phone_number U (phone_number q) \<and>
          phone_number q \<notin> set (map pb_phone_number (phonebook s'))
          \<longrightarrow> add_person U q t' s' =
                (Inl \<lparr>status_code = 400, detail = ''Person already exists in the database''\<rparr>, s')) \<and>
         (validate_full_name U (full_name q) \<and> validate_phone_number U (phone_number q) \<and>
          phone_number q \<in> set (map pb_phone_number (phonebook any)) \<and>
          full_name q \<in> set (map pb_full_name (phonebook any))
          \<longrightarrow> add_person U q t' any =
                (Inl \<lparr>status_code = 400, detail = ''Phone number already exists in the database''\<rparr>, any))"
proof -
  from assms have v: "validate_full_name U (full_name p)" "validate_phone_number U (phone_number p)"
    and pb: "phonebook s' = phonebook s @
       [\<lparr>pb_id = next_id (map pb_id (phonebook s)), pb_full_name = full_name p,
         pb_phone_number = phone_number p\<rparr>]"
    unfolding add_person_cases by (auto simp: audit_insert_def split: if_splits)
  show ?thesis
    unfolding add_person_cases [of U q] using v pb
    by (auto simp: number_exists_def person_exists_def)
qed

theorem add_twice_conflict_witness:
  "add_person unicode_excerpt john 1 empty_stores =
     (Inr ''Person added successfully'', john_stores) \<and>
   add_person unicode_excerpt \<lparr>full_name = str ''Jane Doe'', phone_number = str ''+1 555-1234''\<rparr>
       2 john_stores =
     (Inl \<lparr>status_code = 400, detail = ''Phone number already exists in the database''\<rparr>,
      john_stores) \<and>
   add_person unicode_excerpt \<lparr>full_name = str ''John Smith'', phone_number = str ''+1 555-5678''\<rparr>
       2 john_stores =
     (Inl \<lparr>status_code = 400, detail = ''Person already exists in the database''\<rparr>, john_stores) \<and>
   add_person unicode_excerpt john 2 john_stores =
     (Inl \<lparr>status_code = 400, detail = ''Phone number already exists in the database''\<rparr>,
      john_stores)"
proof -
  have h: "phone_number \<lparr>full_name = str ''Jane Doe'', phone_number = str ''+1 555-1234''\<rparr> =
      phone_number john"
    "full_name \<lparr>full_name = str ''John Smith'', phone_number = str ''+1 555-5678''\<rparr> =
      full_name john"
    "str ''+1 555-5678'' \<notin> set (map pb_phone_number (phonebook john_stores))"
    "phone_number john \<in> set (map pb_phone_number (phonebook john_stores))"
    "full_name john \<in> set (map pb_full_name (phonebook john_stores))"
    "full_name john = str ''John Smith''" "phone_number john = str ''+1 555-1234''"
    by (simp_all add: john_def john_stores_def str_def)
  note first = john_added [of unicode_excerpt]
  from add_twice_conflict [OF first,
      where q = "\<lparr>full_name = str ''Jane Doe'', phone_number = str ''+1 555-1234''\<rparr>"
        and t' = 2 and any = john_stores]
    add_twice_conflict [OF first,
      where q = "\<lparr>full_name = str ''John Smith'', phone_number = str ''+1 555-5678''\<rparr>"
        and t' = 2 and any = john_stores]
    add_twice_conflict [OF first, where q = john and t' = 2 and any = john_stores]
    h valid_examples [of unicode_excerpt] first
  show ?thesis by simp
qed

text \<open>
  As the claim words it, any second add with the stored number gets the Conflict about
  the number, and any second add with the stored name the Conflict about the person.
  That fails where the other field of the second request is malformed: validation
  runs first and the answer is the one for invalid input.
\<close>

theorem add_twice_malformed_counterexample:
  "add_person unicode_excerpt john 1 empty_stores =
     (Inr ''Person added successfully'', john_stores) \<and>
   add_person unicode_excerpt \<lparr>full_name = str ''John123'', phone_number = str ''+1 555-1234''\<rparr>
       2 john_stores =
     (Inl \<lparr>status_code = 400,
           detail = ''Invalid input. Please check your response and try again.''\<rparr>, john_stores) \<and>
   add_person unicode_excerpt \<lparr>full_name = str ''John123'', phone_number = str ''+1 555-1234''\<rparr>
       2 john_stores \<noteq>
     (Inl \<lparr>status_code = 400, detail = ''Phone number already exists in the database''\<rparr>,
      john_stores) \<and>
   add_person unicode_excerpt \<lparr>full_name = str ''John Smith'', phone_number = str ''12''\<rparr>
       2 john_stores =
     (Inl \<lparr>status_code = 400,
           detail = ''Invalid input. Please check your response and try again.''\<rparr>, john_stores) \<and>
   add_person unicode_excerpt \<lparr>full_name = str ''John Smith'', phone_number = str ''12''\<rparr>
       2 john_stores \<noteq>
     (Inl \<lparr>status_code = 400, detail = ''Person already exists in the database''\<rparr>, john_stores)"
  by code_simp

text \<open>
  Claim C7. Whatever the stores hold, the list handler returns all rows of the phone
  book, leaves the phone book as it was and appends exactly one audit row, with action
  \<^verbatim>\<open>list\<close> and with neither a name nor a number.
\<close>

theorem list_phonebook_logged:
  "fst (list_phonebook now s) = phonebook s \<and>
   phonebook (snd (list_phonebook now s)) = phonebook s \<and>
   (\<exists>e. audit_log (snd (list_phonebook now s)) = audit_log s @ [e] \<and>
        al_action e = ''list'' \<and> al_full_name e = None \<and> al_phone_number e = None)"
  by (simp add: list_phonebook_def audit_insert_def)

lemma handle_phonebook:
  "phonebook (handle U req now s) = phonebook s \<or>
   (\<exists>c. phonebook (handle U req now s) = phonebook s @ [c] \<and>
        pb_full_name c \<notin> set (map pb_full_name (phonebook s)) \<and>
        pb_phone_number c \<notin> set (map pb_phone_number (phonebook s))) \<or>
   (\<exists>P. phonebook (handle U req now s) = filter P (phonebook s))"
proof (cases req)
  case List_Phonebook
  then show ?thesis by (simp add: list_phonebook_def audit_insert_def)
next
  case (Add_Person p)
  then show ?thesis unfolding add_person_cases handle.simps Add_Person
    by (simp add: audit_insert_def)
next
  case (Delete_By_Name name)
  then show ?thesis
    by (auto simp: delete_by_name_def audit_insert_def split: option.splits)
next
  case (Delete_By_Number number)
  then show ?thesis
    by (auto simp: delete_by_number_def audit_insert_def split: option.splits)
qed

lemma handle_unique:
  assumes "unique_names s" "unique_numbers s"
  shows "unique_names (handle U req now s) \<and> unique_numbers (handle U req now s)"
  using handle_phonebook [of U req now s] assms
  unfolding unique_names_def unique_numbers_def
  by (auto simp: distinct_map_filter_rows)

lemma run_unique:
  "unique_names s \<Longrightarrow> unique_numbers s \<Longrightarrow> unique_names (run U reqs s) \<and> unique_numbers (run U reqs s)"
proof (induction reqs arbitrary: s)
  case Nil
  then show ?case by simp
next
  case (Cons a reqs)
  obtain req now where a: "a = (req, now)" by (cases a)
  from handle_unique [OF Cons.prems, where U = U and req = req and now = now] Cons.IH [of "handle U req now s"]
  show ?case by (simp add: a)
qed

lemma scenario_run:
  "phonebook (run U scenario empty_stores) = [] \<and>
   map al_action (audit_log (run U scenario empty_stores)) = [''add'', ''delete-by-number'', ''list'']"
  by code_simp

text \<open>
  Claim C8. Requests are handled one after the other. If no two rows of the phone book
  share a name and no two share a number, the same holds after any single request
  (list, add, delete by name, delete by number) and after any sequence of requests.
\<close>

theorem uniqueness_invariant:
  assumes "unique_names s" and "unique_numbers s"
  shows "unique_names (handle U req now s) \<and> unique_numbers (handle U req now s) \<and>
         unique_names (run U reqs s) \<and> unique_numbers (run U reqs s)"
  using handle_unique [OF assms] run_unique [OF assms] by blast

theorem uniqueness_invariant_witness:
  "unique_names john_stores \<and> unique_numbers john_stores \<and>
   unique_names (handle unicode_excerpt
     (Add_Person \<lparr>full_name = str ''Jane Doe'', phone_number = str ''+1 555-5678''\<rparr>) 2 john_stores) \<and>
   unique_numbers (handle unicode_excerpt
     (Add_Person \<lparr>full_name = str ''Jane Doe'', phone_number = str ''+1 555-5678''\<rparr>) 2 john_stores) \<and>
   unique_names (run unicode_excerpt scenario john_stores) \<and>
   unique_numbers (run unicode_excerpt scenario john_stores)"
proof -
  have h: "unique_names john_stores" "unique_numbers john_stores"
    by (simp_all add: unique_names_def unique_numbers_def john_stores_def)
  from uniqueness_invariant [OF h, where U = unicode_excerpt
      and req = "Add_Person \<lparr>full_name = str ''Jane Doe'', phone_number = str ''+1 555-5678''\<rparr>"
      and now = 2 and reqs = scenario] h
  show ?thesis by blast
qed

end
